theory Spec2Isabelle
  imports Main
begin

section \<open>Data model of package trap\<close>

text \<open>
  Signal identities are values of \<^verbatim>\<open>syscall.Signal\<close> (an integer type); the four that the
  package names carry their Linux numbers. Only their being distinct matters below.
\<close>

type_synonym signal = int

definition SIGINT :: signal where "SIGINT = 2"
definition SIGQUIT :: signal where "SIGQUIT = 3"
definition SIGKILL :: signal where "SIGKILL = 9"
definition SIGUSR1 :: signal where "SIGUSR1 = 10"

text \<open>The \<^verbatim>\<open>case syscall.SIGKILL, syscall.SIGINT, syscall.SIGQUIT\<close> of processSignal.\<close>

definition is_term :: "signal \<Rightarrow> bool" where
  "is_term s \<longleftrightarrow> s = SIGKILL \<or> s = SIGINT \<or> s = SIGQUIT"

text \<open>
  A \<^verbatim>\<open>Callback\<close> is a non-nil \<^verbatim>\<open>func()\<close>; it is identified by a number and running it is
  recorded as an event. A callback that re-entered the package would block on \<^verbatim>\<open>mux\<close>
  (processSignal holds it), so callbacks do not change the package state.
  The \<^verbatim>\<open>Value\<close> of a list element has type \<^verbatim>\<open>any\<close>: a Callback or something else.
  An element of a \<^verbatim>\<open>container/list\<close> is a pointer; it is modelled by its address
  paired with its value.
\<close>

type_synonym callback = nat

datatype item = Callback callback | NotCallback

type_synonym element = "nat \<times> item"

text \<open>
  A \<^verbatim>\<open>CallbackRemover\<close> is a closure. The one OnSignal returns captures the list pointer
  \<^verbatim>\<open>l\<close> and the element \<^verbatim>\<open>e\<close>; the one OnKill returns calls three of those in order. A
  remover is therefore the sequence of (list, element) pairs it will \<^verbatim>\<open>Remove\<close>.
\<close>

type_synonym remover = "(nat \<times> nat) list"

text \<open>What the package does that can be observed from outside, in order of occurrence.\<close>

datatype event =
    Lock
  | Unlock
  | Call nat callback
  | Printf string
  | PrintStack
  | Exit nat

datatype error = SendOnClosedChannel | BlockedForever | ProcessExited

text \<open>
  The package-level variables. \<^verbatim>\<open>cbsList\<close> maps a signal to a pointer to a list; \<open>heap\<close>
  gives the elements of the list at each address, front to back; \<open>next_list\<close> and
  \<open>next_elem\<close> are the allocators behind \<^verbatim>\<open>list.New()\<close> and \<^verbatim>\<open>PushBack\<close>. \<open>ch\<close> holds the
  signals buffered in the channel (capacity 3), \<open>notify\<close> the signals that os/signal relays
  into it, \<open>wait\<close> the counter of the WaitGroup (the dispatcher goroutine is alive while
  it is not 0).
\<close>

record state =
  cbsList :: "signal \<Rightarrow> nat option"
  heap :: "nat \<Rightarrow> element list"
  next_list :: nat
  next_elem :: nat
  ch :: "signal list"
  ch_closed :: bool
  notify :: "signal \<Rightarrow> bool"
  wait :: nat
  trace :: "event list"
  exit_code :: "nat option"

definition ch_cap :: nat where "ch_cap = 3"

text \<open>The state after \<^verbatim>\<open>init\<close> has made the map and the channel and started the goroutine.\<close>

definition init :: state where
  "init = \<lparr> cbsList = (\<lambda>_. None), heap = (\<lambda>_. []), next_list = 0, next_elem = 0,
            ch = [], ch_closed = False, notify = (\<lambda>_. False), wait = 1,
            trace = [], exit_code = None \<rparr>"

definition emit :: "event \<Rightarrow> state \<Rightarrow> state" where
  "emit ev st = st\<lparr> trace := trace st @ [ev] \<rparr>"

text \<open>\<^verbatim>\<open>list.New()\<close>: a fresh, empty list.\<close>

definition list_New :: "state \<Rightarrow> nat \<times> state" where
  "list_New st =
     (next_list st,
      st\<lparr> heap := (heap st)(next_list st := []), next_list := Suc (next_list st) \<rparr>)"

text \<open>\<^verbatim>\<open>cbsList[sig] = list.New()\<close>\<close>

definition assign_New :: "signal \<Rightarrow> state \<Rightarrow> state" where
  "assign_New sig st =
     (let (l, st') = list_New st in st'\<lparr> cbsList := (cbsList st')(sig \<mapsto> l) \<rparr>)"

section \<open>processSignal\<close>

text \<open>
  The body of the loop over the elements, for one element: the type assertion
  \<^verbatim>\<open>e.Value.(Callback)\<close> and the call, or the message.
\<close>

fun body_event :: "element \<Rightarrow> event" where
  "body_event (e, Callback cb) = Call e cb"
| "body_event (e, NotCallback) = Printf ''trap error: list item not a callback''"

definition visit :: "element \<Rightarrow> state \<Rightarrow> state" where
  "visit x st = emit (body_event x) st"

text \<open>The loop, given the elements in the order in which it visits them.\<close>

primrec visit_all :: "element list \<Rightarrow> state \<Rightarrow> state" where
  "visit_all [] st = st"
| "visit_all (x # xs) st = visit_all xs (visit x st)"

text \<open>The \<^verbatim>\<open>switch\<close>: for a termination signal all three lists are replaced.\<close>

definition renew_kill_lists :: "signal \<Rightarrow> state \<Rightarrow> state" where
  "renew_kill_lists s st =
     (if is_term s
      then assign_New SIGQUIT (assign_New SIGINT (assign_New SIGKILL st))
      else st)"

text \<open>
  \<^verbatim>\<open>mux\<close> is locked on entry and unlocked by the deferred call, on both returns. \<^verbatim>\<open>cbs\<close> is
  the pointer read from the map before the switch; the loop walks the list at that
  address from \<^verbatim>\<open>Back()\<close> along \<^verbatim>\<open>Prev()\<close>.
\<close>

definition processSignal :: "signal \<Rightarrow> state \<Rightarrow> state" where
  "processSignal s st0 =
     (let st = emit Lock st0 in
      case cbsList st s of
        None \<Rightarrow> emit Unlock st
      | Some cbs \<Rightarrow>
          let st1 = renew_kill_lists s st;
              st2 = visit_all (rev (heap st1 cbs)) st1
          in emit Unlock st2)"

section \<open>Registration and removal\<close>

text \<open>
  \<^verbatim>\<open>l.Remove(e)\<close> under the lock. Remove acts only if \<^verbatim>\<open>e.list == l\<close>, which holds exactly
  while \<open>e\<close> is an element of \<open>l\<close>.
\<close>

definition remove_elem :: "nat \<times> nat \<Rightarrow> state \<Rightarrow> state" where
  "remove_elem p st0 =
     (let st = emit Lock st0;
          l = fst p; e = snd p;
          st1 = st\<lparr> heap := (heap st)(l := filter (\<lambda>x. fst x \<noteq> e) (heap st l)) \<rparr>
      in emit Unlock st1)"

text \<open>Calling a remover.\<close>

primrec call_remover :: "remover \<Rightarrow> state \<Rightarrow> state" where
  "call_remover [] st = st"
| "call_remover (p # ps) st = call_remover ps (remove_elem p st)"

definition OnSignal :: "signal \<Rightarrow> callback \<Rightarrow> state \<Rightarrow> remover \<times> state" where
  "OnSignal sig cb st0 =
     (let st = emit Lock st0;
          (l, st1) =
            (case cbsList st sig of
               Some l \<Rightarrow> (l, st)
             | None \<Rightarrow>
                 let st' = st\<lparr> notify := (notify st)(sig := True) \<rparr>;
                     (l, st'') = list_New st'
                 in (l, st''\<lparr> cbsList := (cbsList st'')(sig \<mapsto> l) \<rparr>));
          e = next_elem st1;
          st2 = st1\<lparr> heap := (heap st1)(l := heap st1 l @ [(e, Callback cb)]),
                     next_elem := Suc e \<rparr>
      in ([(l, e)], emit Unlock st2))"

definition OnReload :: "callback \<Rightarrow> state \<Rightarrow> remover \<times> state" where
  "OnReload cb st = OnSignal SIGUSR1 cb st"

definition OnKill :: "callback \<Rightarrow> state \<Rightarrow> remover \<times> state" where
  "OnKill cb st =
     (let (r1, st1) = OnSignal SIGKILL cb st;
          (r2, st2) = OnSignal SIGQUIT cb st1;
          (r3, st3) = OnSignal SIGINT cb st2
      in (r1 @ r2 @ r3, st3))"

section \<open>The channel, the dispatcher goroutine and Deferrer\<close>

text \<open>
  One iteration of the goroutine started by \<^verbatim>\<open>init\<close>: receive and process a signal, or
  leave the loop (and run the deferred \<^verbatim>\<open>wait.Done()\<close>) when the channel is closed and
  drained. With an empty open channel the receive blocks: nothing happens. Once the
  goroutine has returned nothing happens either.
\<close>

definition loop_iter :: "state \<Rightarrow> state" where
  "loop_iter st =
     (if wait st = 0 then st
      else case ch st of
             s # rest \<Rightarrow> processSignal s (st\<lparr> ch := rest \<rparr>)
           | [] \<Rightarrow> if ch_closed st then st\<lparr> wait := wait st - 1 \<rparr> else st)"

text \<open>
  os/signal relaying a signal of the operating system: a non-blocking send into the
  channel for a signal that was asked for with \<^verbatim>\<open>signal.Notify\<close>; a full channel drops it,
  a closed channel panics.
\<close>

definition deliver :: "signal \<Rightarrow> state \<Rightarrow> error + state" where
  "deliver s st =
     (if \<not> notify st s then Inr st
      else if ch_closed st then Inl SendOnClosedChannel
      else if length (ch st) < ch_cap then Inr (st\<lparr> ch := ch st @ [s] \<rparr>)
      else Inr st)"

text \<open>
  The blocking send \<^verbatim>\<open>ch <- s\<close>. It panics on a closed channel. On a full channel it
  waits until the goroutine has received a signal, that is for one iteration of the loop;
  if that frees no slot it waits forever.
\<close>

definition ch_send :: "signal \<Rightarrow> state \<Rightarrow> error + state" where
  "ch_send s st =
     (if ch_closed st then Inl SendOnClosedChannel
      else if length (ch st) < ch_cap then Inr (st\<lparr> ch := ch st @ [s] \<rparr>)
      else let st' = loop_iter st in
           if length (ch st') < ch_cap then Inr (st'\<lparr> ch := ch st' @ [s] \<rparr>)
           else Inl BlockedForever)"

text \<open>
  \<^verbatim>\<open>wait.Wait()\<close>: the goroutine runs until the counter is 0. On a closed channel one
  iteration for each buffered signal and one more to see the channel closed suffice; if
  the counter is still not 0 then, the wait does not end.
\<close>

definition wait_Wait :: "state \<Rightarrow> error + state" where
  "wait_Wait st =
     (let st' = (loop_iter ^^ (length (ch st) + 1)) st in
      if wait st' = 0 then Inr st' else Inl BlockedForever)"

definition panic_message :: "string \<Rightarrow> string" where
  "panic_message err =
     ''Panic received, attempting gracefull exit'' @ [CHR 0x0A] @ ''Error:'' @ [CHR 0x0A] @ err"

text \<open>
  Deferrer. The argument is what \<^verbatim>\<open>recover()\<close> returns: \<open>None\<close> for nil (no panic in
  flight), otherwise the panic value as printed. \<^verbatim>\<open>defer os.Exit(1)\<close> runs when Deferrer
  returns, after \<^verbatim>\<open>wait.Wait()\<close>.
\<close>

definition Deferrer :: "string option \<Rightarrow> state \<Rightarrow> error + state" where
  "Deferrer err st0 =
     (let st1 = (case err of
                   None \<Rightarrow> st0
                 | Some e \<Rightarrow> emit PrintStack (emit (Printf (panic_message e)) st0));
          st2 = st1\<lparr> notify := (\<lambda>_. False) \<rparr>
      in case ch_send SIGINT st2 of
           Inl x \<Rightarrow> Inl x
         | Inr st3 \<Rightarrow>
             (case wait_Wait (st3\<lparr> ch_closed := True \<rparr>) of
                Inl x \<Rightarrow> Inl x
              | Inr st5 \<Rightarrow>
                  (case err of
                     None \<Rightarrow> Inr st5
                   | Some e \<Rightarrow> Inr ((emit (Exit 1) st5)\<lparr> exit_code := Some 1 \<rparr>))))"

section \<open>Runs of the program\<close>

text \<open>
  What the program and its environment can do, one step at a time: the exported
  functions, calling a remover, the operating system sending a signal, and the goroutine
  making one iteration. After \<^verbatim>\<open>os.Exit\<close> there is no process left to do anything.
\<close>

datatype action =
    DoOnSignal signal callback
  | DoOnKill callback
  | DoOnReload callback
  | DoRemove remover
  | DoDeliver signal
  | DoLoop
  | DoDeferrer "string option"

fun step :: "action \<Rightarrow> state \<Rightarrow> error + state" where
  "step (DoOnSignal s cb) st = Inr (snd (OnSignal s cb st))"
| "step (DoOnKill cb) st = Inr (snd (OnKill cb st))"
| "step (DoOnReload cb) st = Inr (snd (OnReload cb st))"
| "step (DoRemove r) st = Inr (call_remover r st)"
| "step (DoDeliver s) st = deliver s st"
| "step DoLoop st = Inr (loop_iter st)"
| "step (DoDeferrer err) st = Deferrer err st"

definition exec :: "action \<Rightarrow> state \<Rightarrow> error + state" where
  "exec a st = (if exit_code st \<noteq> None then Inl ProcessExited else step a st)"

fun run :: "action list \<Rightarrow> state \<Rightarrow> error + state" where
  "run [] st = Inr st"
| "run (a # as) st = (case exec a st of Inl x \<Rightarrow> Inl x | Inr st' \<Rightarrow> run as st')"

section \<open>Observations\<close>

text \<open>The callback list of a signal, as the registry shows it.\<close>

definition registry :: "state \<Rightarrow> signal \<Rightarrow> element list option" where
  "registry st s = map_option (heap st) (cbsList st s)"

text \<open>The elements run and the callbacks invoked in a sequence of events.\<close>

fun calls :: "event list \<Rightarrow> (nat \<times> callback) list" where
  "calls [] = []"
| "calls (Call e cb # evs) = (e, cb) # calls evs"
| "calls (_ # evs) = calls evs"

text \<open>The events that happened between an earlier state and a later one.\<close>

definition since :: "state \<Rightarrow> state \<Rightarrow> event list" where
  "since st st' = drop (length (trace st)) (trace st')"

text \<open>The elements of a list that hold a callback, with the callback, front to back.\<close>

fun cbs :: "element list \<Rightarrow> (nat \<times> callback) list" where
  "cbs [] = []"
| "cbs ((e, Callback cb) # xs) = (e, cb) # cbs xs"
| "cbs ((e, NotCallback) # xs) = cbs xs"

text \<open>The elements registered for a signal; none when the signal has no list.\<close>

definition existing :: "state \<Rightarrow> signal \<Rightarrow> element list" where
  "existing st s = (case registry st s of None \<Rightarrow> [] | Some xs \<Rightarrow> xs)"

section \<open>Well-formed states\<close>

text \<open>
  What the allocators guarantee: a list in the map was allocated, no two signals share a
  list, every element was allocated, sits in one list only and there once, and holds a
  callback (only OnSignal pushes elements).
\<close>

definition wf :: "state \<Rightarrow> bool" where
  "wf st \<longleftrightarrow>
     (\<forall>s l. cbsList st s = Some l \<longrightarrow> l < next_list st) \<and>
     (\<forall>s s' l. cbsList st s = Some l \<longrightarrow> cbsList st s' = Some l \<longrightarrow> s = s') \<and>
     (\<forall>l a v. (a, v) \<in> set (heap st l) \<longrightarrow> a < next_elem st) \<and>
     (\<forall>l. distinct (map fst (heap st l))) \<and>
     (\<forall>l l' a v v'. (a, v) \<in> set (heap st l) \<longrightarrow> (a, v') \<in> set (heap st l') \<longrightarrow> l = l') \<and>
     (\<forall>l a. (a, NotCallback) \<notin> set (heap st l))"

text \<open>The state after the three assignments of the switch.\<close>

definition renewed :: "state \<Rightarrow> state" where
  "renewed st =
     st\<lparr> cbsList := (cbsList st)(SIGKILL \<mapsto> next_list st, SIGINT \<mapsto> Suc (next_list st),
                                 SIGQUIT \<mapsto> Suc (Suc (next_list st))),
         heap := (heap st)(next_list st := [], Suc (next_list st) := [],
                           Suc (Suc (next_list st)) := []),
         next_list := Suc (Suc (Suc (next_list st))) \<rparr>"

text \<open>
  Whether every call in a sequence of events happens while \<^verbatim>\<open>mux\<close> is free, respectively
  while it is held; the flag says whether it is held at the start.
\<close>

fun calls_unlocked :: "bool \<Rightarrow> event list \<Rightarrow> bool" where
  "calls_unlocked held [] = True"
| "calls_unlocked held (Lock # evs) = calls_unlocked True evs"
| "calls_unlocked held (Unlock # evs) = calls_unlocked False evs"
| "calls_unlocked held (Call e cb # evs) = (\<not> held \<and> calls_unlocked held evs)"
| "calls_unlocked held (_ # evs) = calls_unlocked held evs"

fun calls_locked :: "bool \<Rightarrow> event list \<Rightarrow> bool" where
  "calls_locked held [] = True"
| "calls_locked held (Lock # evs) = calls_locked True evs"
| "calls_locked held (Unlock # evs) = calls_locked False evs"
| "calls_locked held (Call e cb # evs) = (held \<and> calls_locked held evs)"
| "calls_locked held (_ # evs) = calls_locked held evs"

text \<open>The lock and unlock events of a sequence.\<close>

definition mux_events :: "event list \<Rightarrow> event list" where
  "mux_events evs = filter (\<lambda>ev. ev = Lock \<or> ev = Unlock) evs"

text \<open>Registering callbacks one after the other on one signal; the removers in the same order.\<close>

primrec register_all :: "signal \<Rightarrow> callback list \<Rightarrow> state \<Rightarrow> remover list \<times> state" where
  "register_all s [] st = ([], st)"
| "register_all s (c # cs) st =
     (let (r, st1) = OnSignal s c st;
          (rs, st2) = register_all s cs st1
      in (r # rs, st2))"

text \<open>All three termination signals have a list and it is empty.\<close>

definition drained :: "state \<Rightarrow> bool" where
  "drained st \<longleftrightarrow>
     registry st SIGKILL = Some [] \<and> registry st SIGINT = Some [] \<and> registry st SIGQUIT = Some []"

text \<open>The exits of the process in a sequence of events.\<close>

fun exits :: "event list \<Rightarrow> nat list" where
  "exits [] = []"
| "exits (Exit n # evs) = n # exits evs"
| "exits (_ # evs) = exits evs"

text \<open>The goroutine has returned and the channel is closed.\<close>

definition stopped :: "state \<Rightarrow> bool" where
  "stopped st \<longleftrightarrow> wait st = 0 \<and> ch_closed st"

text \<open>A later state in which no callback has been invoked since the earlier one.\<close>

definition quiet :: "state \<Rightarrow> state \<Rightarrow> bool" where
  "quiet st st' \<longleftrightarrow> (\<exists>evs. trace st' = trace st @ evs \<and> calls evs = [])"

text \<open>
  The callback \<open>cb\<close> is registered for all three termination signals, as OnKill does it:
  as element \<open>e1\<close> for SIGKILL, \<open>e2\<close> for SIGQUIT and \<open>e3\<close> for SIGINT.
\<close>

definition kill_registered :: "state \<Rightarrow> nat \<Rightarrow> nat \<Rightarrow> nat \<Rightarrow> callback \<Rightarrow> bool" where
  "kill_registered st e1 e2 e3 cb \<longleftrightarrow>
     (e1, Callback cb) \<in> set (existing st SIGKILL) \<and>
     (e2, Callback cb) \<in> set (existing st SIGQUIT) \<and>
     (e3, Callback cb) \<in> set (existing st SIGINT)"

(*DEFS*)

section \<open>Basic facts\<close>

lemma sig_distinct [simp]:
  "SIGINT \<noteq> SIGQUIT" "SIGINT \<noteq> SIGKILL" "SIGQUIT \<noteq> SIGKILL" 
  "SIGQUIT \<noteq> SIGINT" "SIGKILL \<noteq> SIGINT" "SIGKILL \<noteq> SIGQUIT"
  "SIGUSR1 \<noteq> SIGINT" "SIGUSR1 \<noteq> SIGQUIT" "SIGUSR1 \<noteq> SIGKILL"
  "SIGINT \<noteq> SIGUSR1" "SIGQUIT \<noteq> SIGUSR1" "SIGKILL \<noteq> SIGUSR1"
  by (simp_all add: SIGINT_def SIGQUIT_def SIGKILL_def SIGUSR1_def)

lemma is_term_simps [simp]:
  "is_term SIGINT" "is_term SIGQUIT" "is_term SIGKILL" "\<not> is_term SIGUSR1"
  by (simp_all add: is_term_def)

lemma calls_append [simp]: "calls (xs @ ys) = calls xs @ calls ys"
  by (induction xs rule: calls.induct) simp_all

lemma visit_all_eq: "visit_all xs st = st\<lparr> trace := trace st @ map body_event xs \<rparr>"
  by (induction xs arbitrary: st) (simp_all add: visit_def emit_def)

lemma processSignal_absent:
  "cbsList st s = None \<Longrightarrow> processSignal s st = st\<lparr> trace := trace st @ [Lock, Unlock] \<rparr>"
  by (simp add: processSignal_def emit_def)

lemma processSignal_other:
  "cbsList st s = Some l \<Longrightarrow> \<not> is_term s \<Longrightarrow>
   processSignal s st =
     st\<lparr> trace := trace st @ Lock # map body_event (rev (heap st l)) @ [Unlock] \<rparr>"
  by (simp add: processSignal_def emit_def renew_kill_lists_def visit_all_eq)

lemma renew_kill_lists_term: "is_term s \<Longrightarrow> renew_kill_lists s st = renewed st"
  by (simp add: renew_kill_lists_def assign_New_def list_New_def renewed_def)

lemma processSignal_term:
  "cbsList st s = Some l \<Longrightarrow> is_term s \<Longrightarrow> l < next_list st \<Longrightarrow>
   processSignal s st =
     (renewed st)\<lparr> trace := trace st @ Lock # map body_event (rev (heap st l)) @ [Unlock] \<rparr>"
  by (simp add: processSignal_def emit_def renew_kill_lists_def visit_all_eq assign_New_def list_New_def renewed_def)


lemma wf_init: "wf init"
  by (simp add: wf_def init_def)

lemma wf_trace [simp]: "wf (st\<lparr> trace := t \<rparr>) = wf st"
  by (simp add: wf_def)

lemma wf_emit [simp]: "wf (emit ev st) = wf st"
  by (simp add: emit_def)

lemma wf_assign_New: "wf st \<Longrightarrow> wf (assign_New s st)"
  unfolding wf_def assign_New_def list_New_def
  apply (simp add: Let_def)
  apply (intro conjI allI impI)
       apply (auto simp: less_Suc_eq split: if_splits)
  done

lemma wf_renew: "wf st \<Longrightarrow> wf (renew_kill_lists s st)"
  by (simp add: renew_kill_lists_def wf_assign_New)

lemma wf_visit_all [simp]: "wf (visit_all xs st) = wf st"
  by (simp add: visit_all_eq)

lemma wf_processSignal: "wf st \<Longrightarrow> wf (processSignal s st)"
  by (simp add: processSignal_def Let_def wf_renew split: option.splits)

lemma wf_remove_elem: "wf st \<Longrightarrow> wf (remove_elem p st)"
  unfolding wf_def remove_elem_def emit_def
  apply (simp add: Let_def distinct_map_filter)
  apply (intro conjI allI impI)
    apply blast
   apply (metis)
  apply blast
  done

lemma wf_call_remover: "wf st \<Longrightarrow> wf (call_remover r st)"
  by (induction r arbitrary: st) (simp_all add: wf_remove_elem)


lemma OnSignal_Some:
  "cbsList st s = Some l \<Longrightarrow>
   OnSignal s cb st =
     ([(l, next_elem st)],
      st\<lparr> heap := (heap st)(l := heap st l @ [(next_elem st, Callback cb)]),
          next_elem := Suc (next_elem st),
          trace := trace st @ [Lock, Unlock] \<rparr>)"
  by (simp add: OnSignal_def emit_def Let_def)

lemma OnSignal_None:
  "cbsList st s = None \<Longrightarrow>
   OnSignal s cb st =
     ([(next_list st, next_elem st)],
      st\<lparr> cbsList := (cbsList st)(s \<mapsto> next_list st),
          heap := (heap st)(next_list st := [(next_elem st, Callback cb)]),
          next_list := Suc (next_list st),
          next_elem := Suc (next_elem st),
          notify := (notify st)(s := True),
          trace := trace st @ [Lock, Unlock] \<rparr>)"
  by (simp add: OnSignal_def emit_def list_New_def Let_def)

lemma wf_OnSignal: "wf st \<Longrightarrow> wf (snd (OnSignal s cb st))"
proof (cases "cbsList st s")
  case None
  assume "wf st"
  then show ?thesis
    unfolding OnSignal_None [OF None] wf_def
    apply simp
    apply (intro conjI allI impI)
         apply (auto simp: less_Suc_eq split: if_splits)
     apply (meson less_irrefl)+
    done
next
  case (Some l)
  assume "wf st"
  then show ?thesis
    unfolding OnSignal_Some [OF Some] wf_def
    apply simp
    apply (intro conjI allI impI)
       apply (auto simp: less_Suc_eq split: if_splits)
         apply (meson less_irrefl)+
    done
qed

lemma wf_OnKill: "wf st \<Longrightarrow> wf (snd (OnKill cb st))"
  using wf_OnSignal [of _ _ cb]
  by (simp add: OnKill_def split_beta Let_def)

lemma wf_OnReload: "wf st \<Longrightarrow> wf (snd (OnReload cb st))"
  by (simp add: OnReload_def wf_OnSignal)

lemma wf_ch [simp]: "wf (st\<lparr> ch := c \<rparr>) = wf st"
  by (simp add: wf_def)

lemma wf_wait [simp]: "wf (st\<lparr> wait := c \<rparr>) = wf st"
  by (simp add: wf_def)

lemma wf_ch_closed [simp]: "wf (st\<lparr> ch_closed := c \<rparr>) = wf st"
  by (simp add: wf_def)

lemma wf_notify [simp]: "wf (st\<lparr> notify := c \<rparr>) = wf st"
  by (simp add: wf_def)

lemma wf_exit_code [simp]: "wf (st\<lparr> exit_code := c \<rparr>) = wf st"
  by (simp add: wf_def)

lemma wf_loop_iter: "wf st \<Longrightarrow> wf (loop_iter st)"
  by (simp add: loop_iter_def wf_processSignal split: list.splits)

lemma wf_loop_iters: "wf st \<Longrightarrow> wf ((loop_iter ^^ n) st)"
  by (induction n) (simp_all add: wf_loop_iter)

lemma wf_deliver: "wf st \<Longrightarrow> deliver s st = Inr st' \<Longrightarrow> wf st'"
  by (auto simp: deliver_def split: if_splits)

lemma wf_ch_send: "wf st \<Longrightarrow> ch_send s st = Inr st' \<Longrightarrow> wf st'"
  by (auto simp: ch_send_def Let_def wf_loop_iter split: if_splits)

lemma wf_wait_Wait: "wf st \<Longrightarrow> wait_Wait st = Inr st' \<Longrightarrow> wf st'"
  by (auto simp: wait_Wait_def Let_def wf_loop_iters wf_loop_iter split: if_splits)

lemma wf_Deferrer: "wf st \<Longrightarrow> Deferrer err st = Inr st' \<Longrightarrow> wf st'"
  unfolding Deferrer_def Let_def
  by (cases err) (auto split: sum.splits dest!: wf_ch_send [rotated] wf_wait_Wait [rotated])

lemma wf_step: "wf st \<Longrightarrow> step a st = Inr st' \<Longrightarrow> wf st'"
  by (cases a)
    (auto simp: wf_OnSignal wf_OnKill wf_OnReload wf_call_remover wf_loop_iter
          intro: wf_deliver wf_Deferrer)

lemma wf_exec: "wf st \<Longrightarrow> exec a st = Inr st' \<Longrightarrow> wf st'"
  by (auto simp: exec_def split: if_splits dest: wf_step)

lemma wf_run: "wf st \<Longrightarrow> run as st = Inr st' \<Longrightarrow> wf st'"
  by (induction as arbitrary: st) (auto split: if_splits sum.splits dest: wf_exec)

lemma cbs_append [simp]: "cbs (xs @ ys) = cbs xs @ cbs ys"
  by (induction xs rule: cbs.induct) simp_all

lemma cbs_rev: "cbs (rev xs) = rev (cbs xs)"
  by (induction xs rule: cbs.induct) simp_all

lemma calls_body [simp]: "calls (map body_event xs) = cbs xs"
  by (induction xs rule: cbs.induct) simp_all

lemma since_app [simp]: "since st (st'\<lparr> trace := trace st @ evs \<rparr>) = evs"
  by (simp add: since_def)

lemma since_self [simp]: "since st st = []"
  by (simp add: since_def)

lemma concat_replicate_snoc: "concat (replicate n xs) @ xs = xs @ concat (replicate n xs)"
  by (induction n) simp_all

lemma processSignal_other_iter:
  assumes "\<not> is_term s"
  shows "(processSignal s ^^ n) st =
           st\<lparr> trace := trace st @ concat (replicate n (since st (processSignal s st))) \<rparr>"
proof (induction n)
  case 0
  show ?case by simp
next
  case (Suc n)
  show ?case
  proof (cases "cbsList st s")
    case None
    then show ?thesis
      by (simp add: Suc processSignal_absent concat_replicate_snoc)
  next
    case (Some l)
    then show ?thesis using assms
      by (simp add: Suc processSignal_other concat_replicate_snoc)
  qed
qed

lemmas model_defs =
  OnSignal_def OnKill_def OnReload_def init_def emit_def list_New_def assign_New_def
  processSignal_def renew_kill_lists_def visit_def remove_elem_def registry_def existing_def
  since_def Let_def

lemma trace_renew [simp]: "trace (renew_kill_lists s st) = trace st"
  by (simp add: renew_kill_lists_def assign_New_def list_New_def)

lemma trace_processSignal:
  "trace (processSignal s st) =
     trace st @ Lock #
       map body_event (case cbsList st s of None \<Rightarrow> []
                       | Some l \<Rightarrow> rev (heap (renew_kill_lists s (emit Lock st)) l)) @ [Unlock]"
  by (simp add: processSignal_def Let_def visit_all_eq emit_def split: option.splits)

lemma body_event_cases: "(\<exists>e cb. body_event x = Call e cb) \<or> (\<exists>m. body_event x = Printf m)"
  by (cases x rule: body_event.cases) simp_all

lemma calls_locked_body: "calls_locked True (map body_event xs @ [Unlock])"
proof (induction xs)
  case Nil show ?case by simp
next
  case (Cons x xs)
  with body_event_cases [of x] show ?case by auto
qed

lemma mux_events_body: "mux_events (map body_event xs) = []"
proof (induction xs)
  case Nil show ?case by (simp add: mux_events_def)
next
  case (Cons x xs)
  with body_event_cases [of x] show ?case by (auto simp: mux_events_def)
qed

lemma registry_OnSignal:
  assumes "wf st"
  shows "registry (snd (OnSignal s cb st)) =
           (registry st)(s \<mapsto> existing st s @ [(next_elem st, Callback cb)])"
proof (cases "cbsList st s")
  case None
  have "cbsList st t \<noteq> Some (next_list st)" for t
    using assms by (auto simp: wf_def)
  then show ?thesis
    by (auto simp: OnSignal_None [OF None] registry_def existing_def None fun_eq_iff map_option_case
             split: option.splits)
next
  case (Some l)
  have "cbsList st t = Some l \<Longrightarrow> t = s" for t
    using assms Some by (auto simp: wf_def)
  then show ?thesis
    by (auto simp: OnSignal_Some [OF Some] registry_def existing_def Some fun_eq_iff map_option_case
             split: option.splits)
qed

lemma next_elem_OnSignal [simp]: "next_elem (snd (OnSignal s cb st)) = Suc (next_elem st)"
  by (cases "cbsList st s") (simp_all add: OnSignal_None OnSignal_Some)

lemma handle_OnSignal:
  "\<exists>l. fst (OnSignal s cb st) = [(l, next_elem st)] \<and> cbsList (snd (OnSignal s cb st)) s = Some l"
  by (cases "cbsList st s") (simp_all add: OnSignal_None OnSignal_Some)

lemma cbsList_OnSignal_keeps:
  "cbsList st t = Some l \<Longrightarrow> cbsList (snd (OnSignal s cb st)) t = Some l"
  by (cases "cbsList st s") (auto simp: OnSignal_None OnSignal_Some)

lemma cbsList_remove_elem [simp]: "cbsList (remove_elem p st) = cbsList st"
  by (simp add: remove_elem_def emit_def Let_def)

lemma next_elem_remove_elem [simp]: "next_elem (remove_elem p st) = next_elem st"
  by (simp add: remove_elem_def emit_def Let_def)

lemma registry_remove_elem:
  assumes "wf st" and "cbsList st s = Some l"
  shows "registry (remove_elem (l, e) st) =
           (registry st)(s \<mapsto> filter (\<lambda>x. fst x \<noteq> e) (existing st s))"
proof (rule ext)
  fix t
  have own: "cbsList st t = Some l \<Longrightarrow> t = s"
    using assms unfolding wf_def by blast
  have h: "heap (remove_elem (l, e) st) = (heap st)(l := filter (\<lambda>x. fst x \<noteq> e) (heap st l))"
    by (simp add: remove_elem_def emit_def Let_def)
  show "registry (remove_elem (l, e) st) t =
          ((registry st)(s \<mapsto> filter (\<lambda>x. fst x \<noteq> e) (existing st s))) t"
  proof (cases "t = s")
    case True
    then show ?thesis using assms(2) by (simp add: registry_def existing_def h)
  next
    case False
    with own have "cbsList st t \<noteq> Some l" by blast
    with False show ?thesis by (cases "cbsList st t") (simp_all add: registry_def h)
  qed
qed

lemma filter_existing_fresh:
  assumes "wf st" and "next_elem st \<le> e"
  shows "filter (\<lambda>x. fst x \<noteq> e) (existing st s) = existing st s"
proof -
  have "fst x \<noteq> e" if "x \<in> set (existing st s)" for x
  proof -
    obtain a v where x: "x = (a, v)" by (cases x)
    from that obtain l where "(a, v) \<in> set (heap st l)"
      by (auto simp: existing_def registry_def x split: option.splits)
    with assms(1) have "a < next_elem st" unfolding wf_def by blast
    with assms(2) show ?thesis by (simp add: x)
  qed
  then show ?thesis by (simp add: filter_id_conv)
qed

lemma existing_upd:
  "registry st' = (registry st)(s \<mapsto> xs) \<Longrightarrow> existing st' t = (if t = s then xs else existing st t)"
  by (simp add: existing_def)

lemma calls_processSignal:
  assumes "wf st"
  shows "calls (since st (processSignal s st)) = rev (cbs (existing st s))"
proof (cases "cbsList st s")
  case None
  then show ?thesis by (simp add: processSignal_absent existing_def registry_def)
next
  case (Some l)
  with assms have "l < next_list st" unfolding wf_def by blast
  with Some show ?thesis
    by (cases "is_term s")
      (simp_all add: processSignal_term processSignal_other existing_def registry_def cbs_rev)
qed

lemma register_all_keeps:
  "cbsList st t = Some l \<Longrightarrow> cbsList (snd (register_all s cs st)) t = Some l"
proof (induction cs arbitrary: st)
  case Nil
  then show ?case by simp
next
  case (Cons c cs)
  from cbsList_OnSignal_keeps [OF Cons.prems, of s c]
  have "cbsList (snd (register_all s cs (snd (OnSignal s c st)))) t = Some l"
    by (rule Cons.IH)
  then show ?case by (simp add: split_beta Let_def)
qed

lemma register_all_effect:
  assumes "wf st" and "register_all s cs st = (rs, st1)"
  shows "wf st1 \<and>
         next_elem st1 = next_elem st + length cs \<and>
         existing st1 s =
           existing st s @ zip [next_elem st ..< next_elem st + length cs] (map Callback cs) \<and>
         (\<forall>l. cbsList st1 s = Some l \<longrightarrow>
              rs = map (\<lambda>e. [(l, e)]) [next_elem st ..< next_elem st + length cs])"
  using assms
proof (induction cs arbitrary: st rs st1)
  case Nil
  then show ?case by auto
next
  case (Cons c cs)
  obtain r sta where o: "OnSignal s c st = (r, sta)" by (cases "OnSignal s c st")
  obtain rs' stb where ra: "register_all s cs sta = (rs', stb)"
    by (cases "register_all s cs sta")
  from Cons.prems(2) have rs: "rs = r # rs'" and st1: "st1 = stb"
    by (simp_all add: o ra)
  have wa: "wf sta" using wf_OnSignal [OF Cons.prems(1), of s c] by (simp add: o)
  have na: "next_elem sta = Suc (next_elem st)"
    using next_elem_OnSignal [of s c st] by (simp add: o)
  have ga: "registry sta = (registry st)(s \<mapsto> existing st s @ [(next_elem st, Callback c)])"
    using registry_OnSignal [OF Cons.prems(1), of s c] by (simp add: o)
  have ea: "existing sta s = existing st s @ [(next_elem st, Callback c)]"
    by (simp add: existing_upd [OF ga])
  obtain l0 where r: "r = [(l0, next_elem st)]" and ca: "cbsList sta s = Some l0"
    using handle_OnSignal [of s c st] by (auto simp: o)
  have cb: "cbsList stb s = Some l0"
    using register_all_keeps [OF ca, of s cs] by (simp add: ra)
  note ih = Cons.IH [OF wa ra]
  have up: "[next_elem st ..< next_elem st + length (c # cs)] =
            next_elem st # [Suc (next_elem st) ..< Suc (next_elem st) + length cs]"
    by (simp add: upt_rec)
  show ?case
    unfolding up st1 rs
    using ih by (simp add: na ea r cb)
qed

lemma remove_several:
  assumes "wf st" and "cbsList st s = Some l" and "\<forall>r\<in>set rs. \<exists>e. r = [(l, e)]"
  shows "wf (fold call_remover rs st) \<and>
         cbsList (fold call_remover rs st) = cbsList st \<and>
         existing (fold call_remover rs st) s =
           filter (\<lambda>x. [(l, fst x)] \<notin> set rs) (existing st s)"
  using assms
proof (induction rs arbitrary: st)
  case Nil
  then show ?case by simp
next
  case (Cons r rs)
  then obtain e where r: "r = [(l, e)]" by auto
  let ?st = "remove_elem (l, e) st"
  have w: "wf ?st" by (rule wf_remove_elem [OF Cons.prems(1)])
  have c: "cbsList ?st s = Some l" by (simp add: Cons.prems(2))
  have g: "existing ?st s = filter (\<lambda>x. fst x \<noteq> e) (existing st s)"
    by (simp add: existing_upd [OF registry_remove_elem [OF Cons.prems(1,2)]])
  from Cons.prems(3) have "\<forall>r\<in>set rs. \<exists>e. r = [(l, e)]" by simp
  from Cons.IH [OF w c this] show ?case
    by (simp add: r g conj_commute)
qed

lemma kept_callbacks:
  "length es = length cs \<Longrightarrow>
   map snd (cbs (filter (\<lambda>x. [(l, fst x)] \<notin> R) (zip es (map Callback cs)))) =
   map snd (filter (\<lambda>p. fst p \<notin> R) (zip (map (\<lambda>e. [(l, e)]) es) cs))"
  by (induction es cs rule: list_induct2) simp_all

lemma since_trans:
  "trace b = trace a @ x \<Longrightarrow> trace c = trace b @ y \<Longrightarrow> since a c = since a b @ since b c"
  by (simp add: since_def)

lemma processSignal_extends: "\<exists>evs. trace (processSignal s st) = trace st @ evs"
  by (simp add: trace_processSignal)

lemma fold_processSignal_extends: "\<exists>evs. trace (fold processSignal ss st) = trace st @ evs"
proof (induction ss arbitrary: st)
  case Nil
  show ?case by simp
next
  case (Cons s ss)
  from processSignal_extends [of s st] obtain a where a: "trace (processSignal s st) = trace st @ a" ..
  from Cons [of "processSignal s st"] obtain b
    where "trace (fold processSignal ss (processSignal s st)) = trace (processSignal s st) @ b" ..
  with a show ?case by simp
qed

lemma registry_renewed:
  assumes "wf st"
  shows "registry (renewed st) = (registry st)(SIGKILL \<mapsto> [], SIGINT \<mapsto> [], SIGQUIT \<mapsto> [])"
proof (rule ext)
  fix t
  have fresh: "cbsList st t = Some l \<Longrightarrow> l < next_list st" for l
    using assms unfolding wf_def by blast
  show "registry (renewed st) t =
          ((registry st)(SIGKILL \<mapsto> [], SIGINT \<mapsto> [], SIGQUIT \<mapsto> [])) t"
  proof (cases "cbsList st t")
    case None
    then show ?thesis by (simp add: registry_def renewed_def)
  next
    case (Some l)
    with fresh [OF Some] show ?thesis by (simp add: registry_def renewed_def)
  qed
qed

lemma registry_trace [simp]: "registry (st\<lparr> trace := t \<rparr>) = registry st"
  by (simp add: registry_def fun_eq_iff)

lemma registry_emit [simp]: "registry (emit ev st) = registry st"
  by (simp add: emit_def)

lemma registry_processSignal_term:
  assumes "wf st" and "is_term s" and "cbsList st s = Some l"
  shows "registry (processSignal s st) =
           (registry st)(SIGKILL \<mapsto> [], SIGINT \<mapsto> [], SIGQUIT \<mapsto> [])"
proof -
  from assms have "l < next_list st" unfolding wf_def by blast
  then show ?thesis
    by (simp add: processSignal_term [OF assms(3,2)] registry_renewed [OF assms(1)])
qed

lemma drained_processSignal:
  assumes "wf st" and "is_term s" and "cbsList st s \<noteq> None"
  shows "drained (processSignal s st)"
proof -
  from assms(3) obtain l where "cbsList st s = Some l" by auto
  from registry_processSignal_term [OF assms(1,2) this] show ?thesis
    by (simp add: drained_def)
qed

lemma drained_existing:
  "drained st \<Longrightarrow> is_term s \<Longrightarrow> existing st s = [] \<and> cbsList st s \<noteq> None"
  by (auto simp: drained_def is_term_def existing_def registry_def)

lemma drained_calls_nothing:
  assumes "wf st" and "drained st" and "\<forall>s\<in>set ss. is_term s"
  shows "calls (since st (fold processSignal ss st)) = []"
  using assms
proof (induction ss arbitrary: st)
  case Nil
  show ?case by simp
next
  case (Cons s ss)
  let ?st = "processSignal s st"
  from Cons.prems have t: "is_term s" by simp
  from drained_existing [OF Cons.prems(2) t]
  have e: "existing st s = []" and c: "cbsList st s \<noteq> None" by auto
  have w: "wf ?st" by (rule wf_processSignal [OF Cons.prems(1)])
  have d: "drained ?st" by (rule drained_processSignal [OF Cons.prems(1) t c])
  from Cons.prems(3) have "\<forall>s\<in>set ss. is_term s" by simp
  from Cons.IH [OF w d this] have rest: "calls (since ?st (fold processSignal ss ?st)) = []" .
  obtain a where a: "trace ?st = trace st @ a" using processSignal_extends ..
  obtain b where b: "trace (fold processSignal ss ?st) = trace ?st @ b"
    using fold_processSignal_extends ..
  have "calls (since st ?st) = []"
    using calls_processSignal [OF Cons.prems(1), of s] by (simp add: e)
  with rest show ?case by (simp add: since_trans [OF a b])
qed

lemma cbs_subset: "set (map fst (cbs xs)) \<subseteq> set (map fst xs)"
  by (induction xs rule: cbs.induct) auto

lemma distinct_cbs: "distinct (map fst xs) \<Longrightarrow> distinct (map fst (cbs xs))"
proof (induction xs rule: cbs.induct)
  case (2 e cb xs)
  with cbs_subset [of xs] show ?case by auto
qed simp_all

lemma distinct_existing: "wf st \<Longrightarrow> distinct (map fst (existing st s))"
  unfolding wf_def existing_def registry_def by (cases "cbsList st s") simp_all

lemma calls_termination_dispatches:
  assumes "wf st" and "\<forall>s\<in>set ss. is_term s"
  shows "calls (since st (fold processSignal ss st)) =
           (case find (\<lambda>s. cbsList st s \<noteq> None) ss of
              None \<Rightarrow> []
            | Some s \<Rightarrow> rev (cbs (existing st s)))"
  using assms
proof (induction ss arbitrary: st)
  case Nil
  show ?case by simp
next
  case (Cons s ss)
  let ?st = "processSignal s st"
  from Cons.prems have t: "is_term s" and ts: "\<forall>s\<in>set ss. is_term s" by simp_all
  have w: "wf ?st" by (rule wf_processSignal [OF Cons.prems(1)])
  obtain a where a: "trace ?st = trace st @ a" using processSignal_extends ..
  obtain b where b: "trace (fold processSignal ss ?st) = trace ?st @ b"
    using fold_processSignal_extends ..
  have split: "calls (since st (fold processSignal ss ?st)) =
                 calls (since st ?st) @ calls (since ?st (fold processSignal ss ?st))"
    by (simp add: since_trans [OF a b])
  have first: "calls (since st ?st) = rev (cbs (existing st s))"
    by (rule calls_processSignal [OF Cons.prems(1)])
  show ?case
  proof (cases "cbsList st s")
    case None
    then have same: "cbsList ?st = cbsList st" "existing ?st = existing st"
      by (simp_all add: processSignal_absent existing_def fun_eq_iff)
    have "calls (since ?st (fold processSignal ss ?st)) =
            (case find (\<lambda>s. cbsList st s \<noteq> None) ss of
               None \<Rightarrow> []
             | Some s \<Rightarrow> rev (cbs (existing st s)))"
      using Cons.IH [OF w ts] unfolding same .
    moreover have "existing st s = []"
      using None by (simp add: existing_def registry_def)
    ultimately show ?thesis
      using None by (simp add: split first)
  next
    case (Some l)
    then have d: "drained ?st"
      using drained_processSignal [OF Cons.prems(1) t] by simp
    from drained_calls_nothing [OF w d ts] Some show ?thesis
      by (simp add: split first)
  qed
qed

lemma processSignal_frame [simp]:
  "ch (processSignal s st) = ch st"
  "ch_closed (processSignal s st) = ch_closed st"
  "wait (processSignal s st) = wait st"
  "notify (processSignal s st) = notify st"
  "exit_code (processSignal s st) = exit_code st"
  "next_elem (processSignal s st) = next_elem st"
  by (simp_all add: processSignal_def Let_def visit_all_eq emit_def renew_kill_lists_def
        assign_New_def list_New_def split: option.splits)

lemma processSignal_ch_upd: "processSignal s (st\<lparr> ch := c \<rparr>) = (processSignal s st)\<lparr> ch := c \<rparr>"
  by (simp add: processSignal_def Let_def visit_all_eq emit_def renew_kill_lists_def
        assign_New_def list_New_def split: option.splits)

lemma processSignal_closed_upd:
  "processSignal s (st\<lparr> ch_closed := c \<rparr>) = (processSignal s st)\<lparr> ch_closed := c \<rparr>"
  by (simp add: processSignal_def Let_def visit_all_eq emit_def renew_kill_lists_def
        assign_New_def list_New_def split: option.splits)

lemma fold_processSignal_frame [simp]:
  "ch (fold processSignal ss st) = ch st"
  "ch_closed (fold processSignal ss st) = ch_closed st"
  "wait (fold processSignal ss st) = wait st"
  "notify (fold processSignal ss st) = notify st"
  "exit_code (fold processSignal ss st) = exit_code st"
  by (induction ss arbitrary: st) simp_all

lemma fold_processSignal_ch_upd:
  "fold processSignal ss (st\<lparr> ch := c \<rparr>) = (fold processSignal ss st)\<lparr> ch := c \<rparr>"
  by (induction ss arbitrary: st) (simp_all add: processSignal_ch_upd)

lemma fold_processSignal_closed_upd:
  "fold processSignal ss (st\<lparr> ch_closed := c \<rparr>) = (fold processSignal ss st)\<lparr> ch_closed := c \<rparr>"
  by (induction ss arbitrary: st) (simp_all add: processSignal_closed_upd)

lemma processSignal_notify_upd:
  "processSignal s (st\<lparr> notify := c \<rparr>) = (processSignal s st)\<lparr> notify := c \<rparr>"
  by (simp add: processSignal_def Let_def visit_all_eq emit_def renew_kill_lists_def
        assign_New_def list_New_def split: option.splits)

lemma fold_processSignal_notify_upd:
  "fold processSignal ss (st\<lparr> notify := c \<rparr>) = (fold processSignal ss st)\<lparr> notify := c \<rparr>"
  by (induction ss arbitrary: st) (simp_all add: processSignal_notify_upd)

lemma loop_drain:
  assumes "ch st = xs" and "wait st = Suc 0" and "ch_closed st"
  shows "(loop_iter ^^ (length xs + 1)) st =
           (fold processSignal xs (st\<lparr> ch := [] \<rparr>))\<lparr> wait := 0 \<rparr>"
  using assms
proof (induction xs arbitrary: st)
  case Nil
  then show ?case by (simp add: loop_iter_def)
next
  case (Cons s rest)
  let ?st = "processSignal s (st\<lparr> ch := rest \<rparr>)"
  have step: "loop_iter st = ?st" using Cons.prems by (simp add: loop_iter_def)
  have "(loop_iter ^^ (length rest + 1)) ?st =
          (fold processSignal rest (?st\<lparr> ch := [] \<rparr>))\<lparr> wait := 0 \<rparr>"
    by (rule Cons.IH) (simp_all add: Cons.prems)
  moreover have "?st\<lparr> ch := [] \<rparr> = processSignal s (st\<lparr> ch := [] \<rparr>)"
    by (simp add: processSignal_ch_upd)
  moreover have "(loop_iter ^^ (length (s # rest) + 1)) st = (loop_iter ^^ (length rest + 1)) (loop_iter st)"
    by (simp add: funpow_swap1)
  ultimately show ?case by (simp add: step)
qed

lemma wait_Wait_closed:
  assumes "wait st = Suc 0" and "ch_closed st"
  shows "wait_Wait st = Inr ((fold processSignal (ch st) (st\<lparr> ch := [] \<rparr>))\<lparr> wait := 0 \<rparr>)"
  using loop_drain [OF refl assms] by (simp add: wait_Wait_def)

lemma ch_send_running:
  assumes "\<not> ch_closed st" and "wait st = Suc 0" and "length (ch st) \<le> ch_cap"
  shows "\<exists>n. n \<le> length (ch st) \<and>
             ch_send s st = Inr ((fold processSignal (take n (ch st)) st)
                                    \<lparr> ch := drop n (ch st) @ [s] \<rparr>)"
proof (cases "length (ch st) < ch_cap")
  case True
  then have "ch_send s st = Inr ((fold processSignal (take 0 (ch st)) st)\<lparr> ch := drop 0 (ch st) @ [s] \<rparr>)"
    using assms by (simp add: ch_send_def)
  then show ?thesis by blast
next
  case False
  with assms(3) have full: "length (ch st) = ch_cap" by simp
  then obtain x rest where c: "ch st = x # rest" by (cases "ch st") (simp_all add: ch_cap_def)
  have li: "loop_iter st = (processSignal x st)\<lparr> ch := rest \<rparr>"
    using assms c by (simp add: loop_iter_def processSignal_ch_upd)
  have "ch_send s st = Inr ((fold processSignal (take 1 (ch st)) st)\<lparr> ch := drop 1 (ch st) @ [s] \<rparr>)"
    using assms full False c by (simp add: ch_send_def li Let_def)
  moreover have "1 \<le> length (ch st)" using c by simp
  ultimately show ?thesis by blast
qed

text \<open>What Deferrer comes to while the goroutine runs and the channel is open.\<close>

lemma Deferrer_running:
  assumes "\<not> ch_closed st" and "wait st = Suc 0" and "length (ch st) \<le> ch_cap"
  shows "Deferrer err st =
           Inr (let st1 = (case err of
                             None \<Rightarrow> st
                           | Some e \<Rightarrow> emit PrintStack (emit (Printf (panic_message e)) st));
                    st5 = (fold processSignal (ch st @ [SIGINT]) st1)
                            \<lparr> ch := [], ch_closed := True, notify := (\<lambda>_. False), wait := 0 \<rparr>
                in case err of
                     None \<Rightarrow> st5
                   | Some e \<Rightarrow> (emit (Exit 1) st5)\<lparr> exit_code := Some 1 \<rparr>)"
proof -
  define st1 where "st1 = (case err of
                             None \<Rightarrow> st
                           | Some e \<Rightarrow> emit PrintStack (emit (Printf (panic_message e)) st))"
  define st2 where "st2 = st1\<lparr> notify := (\<lambda>_. False) \<rparr>"
  have f1: "ch st1 = ch st" "ch_closed st1 = ch_closed st" "wait st1 = wait st"
    by (simp_all add: st1_def emit_def split: option.splits)
  have r2: "\<not> ch_closed st2" "wait st2 = Suc 0" "length (ch st2) \<le> ch_cap" "ch st2 = ch st"
    using assms by (simp_all add: st2_def f1)
  from ch_send_running [OF r2(1,2,3), of SIGINT] obtain n where
    n: "n \<le> length (ch st)" and
    send: "ch_send SIGINT st2 =
             Inr ((fold processSignal (take n (ch st)) st2)\<lparr> ch := drop n (ch st) @ [SIGINT] \<rparr>)"
    by (auto simp: r2(4))
  let ?st3 = "(fold processSignal (take n (ch st)) st2)\<lparr> ch := drop n (ch st) @ [SIGINT] \<rparr>"
  have w: "wait_Wait (?st3\<lparr> ch_closed := True \<rparr>) =
             Inr ((fold processSignal (drop n (ch st) @ [SIGINT])
                     ((?st3\<lparr> ch_closed := True \<rparr>)\<lparr> ch := [] \<rparr>))\<lparr> wait := 0 \<rparr>)"
    using wait_Wait_closed [of "?st3\<lparr> ch_closed := True \<rparr>"] r2 by simp
  have "fold processSignal (drop n (ch st) @ [SIGINT]) ((?st3\<lparr> ch_closed := True \<rparr>)\<lparr> ch := [] \<rparr>) =
        (fold processSignal (drop n (ch st) @ [SIGINT]) (fold processSignal (take n (ch st)) st2))
          \<lparr> ch := [], ch_closed := True \<rparr>"
    by (simp add: fold_processSignal_ch_upd fold_processSignal_closed_upd
             processSignal_ch_upd processSignal_closed_upd)
  also have "fold processSignal (drop n (ch st) @ [SIGINT]) (fold processSignal (take n (ch st)) st2) =
             fold processSignal (ch st @ [SIGINT]) st2"
  proof -
    have "fold processSignal (take n (ch st) @ (drop n (ch st) @ [SIGINT])) st2 =
          fold processSignal (drop n (ch st) @ [SIGINT]) (fold processSignal (take n (ch st)) st2)"
      by (simp only: fold_append comp_apply)
    moreover have "take n (ch st) @ (drop n (ch st) @ [SIGINT]) = ch st @ [SIGINT]" by simp
    ultimately show ?thesis by (simp only:)
  qed
  finally have drain: "fold processSignal (drop n (ch st) @ [SIGINT]) ((?st3\<lparr> ch_closed := True \<rparr>)\<lparr> ch := [] \<rparr>) =
        (fold processSignal (ch st @ [SIGINT]) st2)\<lparr> ch := [], ch_closed := True \<rparr>" .
  have n2: "fold processSignal ss st2 = (fold processSignal ss st1)\<lparr> notify := (\<lambda>_. False) \<rparr>" for ss
    unfolding st2_def by (rule fold_processSignal_notify_upd)
  let ?F = "(fold processSignal (ch st @ [SIGINT]) st1)
              \<lparr> ch := [], ch_closed := True, notify := (\<lambda>_. False), wait := 0 \<rparr>"
  have ws: "wait_Wait (?st3\<lparr> ch_closed := True \<rparr>) = Inr ?F"
    using w [unfolded drain] by (simp add: n2 processSignal_notify_upd)
  have D: "Deferrer err st =
             (case err of None \<Rightarrow> Inr ?F
              | Some e \<Rightarrow> Inr ((emit (Exit 1) ?F)\<lparr> exit_code := Some 1 \<rparr>))"
    unfolding Deferrer_def Let_def st1_def [symmetric] st2_def [symmetric] send sum.case ws
    by (rule refl)
  show ?thesis
    unfolding D Let_def st1_def [symmetric] by (cases err) simp_all
qed

lemma since_frame [simp]:
  "since st (st'\<lparr> ch := a \<rparr>) = since st st'"
  "since st (st'\<lparr> ch_closed := b \<rparr>) = since st st'"
  "since st (st'\<lparr> notify := c \<rparr>) = since st st'"
  "since st (st'\<lparr> wait := d \<rparr>) = since st st'"
  "since st (st'\<lparr> exit_code := e \<rparr>) = since st st'"
  by (simp_all add: since_def)

lemma exits_append [simp]: "exits (xs @ ys) = exits xs @ exits ys"
  by (induction xs rule: exits.induct) simp_all

lemma exits_body [simp]: "exits (map body_event xs) = []"
proof (induction xs)
  case Nil show ?case by simp
next
  case (Cons x xs)
  with body_event_cases [of x] show ?case by auto
qed

lemma exits_processSignal [simp]: "exits (since st (processSignal s st)) = []"
  by (simp add: since_def trace_processSignal)


lemma since_fold_after:
  assumes "trace st1 = trace st @ pre"
  shows "since st (fold processSignal ss st1) = pre @ since st1 (fold processSignal ss st1)"
proof -
  obtain b where b: "trace (fold processSignal ss st1) = trace st1 @ b"
    using fold_processSignal_extends ..
  show ?thesis by (simp add: since_trans [OF assms b]) (simp add: since_def assms)
qed

lemma fold_processSignal_trace_upd:
  "fold processSignal ss (st\<lparr> trace := t \<rparr>) =
     (fold processSignal ss st)\<lparr> trace := t @ since st (fold processSignal ss st) \<rparr>"
proof (induction ss arbitrary: st t)
  case Nil
  show ?case by simp
next
  case (Cons s ss)
  have p: "processSignal s (st\<lparr> trace := t \<rparr>) =
             (processSignal s st)\<lparr> trace := t @ since st (processSignal s st) \<rparr>"
    by (simp add: processSignal_def Let_def visit_all_eq emit_def renew_kill_lists_def
          assign_New_def list_New_def since_def split: option.splits)
  obtain a where a: "trace (processSignal s st) = trace st @ a" using processSignal_extends ..
  obtain b where b: "trace (fold processSignal ss (processSignal s st)) = trace (processSignal s st) @ b"
    using fold_processSignal_extends ..
  show ?case
    by (simp add: p Cons since_trans [OF a b])
qed

lemma OnSignal_frame [simp]:
  "ch (snd (OnSignal s cb st)) = ch st"
  "ch_closed (snd (OnSignal s cb st)) = ch_closed st"
  "wait (snd (OnSignal s cb st)) = wait st"
  "exit_code (snd (OnSignal s cb st)) = exit_code st"
  by (cases "cbsList st s"; simp add: OnSignal_None OnSignal_Some)+

lemma OnKill_frame [simp]:
  "ch (snd (OnKill cb st)) = ch st"
  "ch_closed (snd (OnKill cb st)) = ch_closed st"
  "wait (snd (OnKill cb st)) = wait st"
  "exit_code (snd (OnKill cb st)) = exit_code st"
  by (simp_all add: OnKill_def split_beta Let_def)

lemma quiet_refl [simp]: "quiet st st"
  by (simp add: quiet_def)

lemma quiet_trans: "quiet a b \<Longrightarrow> quiet b c \<Longrightarrow> quiet a c"
  by (auto simp: quiet_def)

lemma quiet_since: "quiet st st' \<Longrightarrow> calls (since st st') = []"
  by (auto simp: quiet_def since_def)

lemma quiet_frame [simp]:
  "quiet st (st'\<lparr> ch := a \<rparr>) = quiet st st'"
  "quiet (st\<lparr> ch := a \<rparr>) st' = quiet st st'"
  by (simp_all add: quiet_def)

lemma loop_iter_closed: "ch_closed (loop_iter st) = ch_closed st"
  by (simp add: loop_iter_def split: list.splits)

lemma loop_iters_closed: "ch_closed ((loop_iter ^^ n) st) = ch_closed st"
  by (induction n) (simp_all add: loop_iter_closed)

lemma ch_send_closed: "ch_send s st = Inr st' \<Longrightarrow> ch_closed st' = ch_closed st"
  by (auto simp: ch_send_def Let_def loop_iter_closed split: if_splits)

lemma wait_Wait_stopped: "wait_Wait st = Inr st' \<Longrightarrow> wait st' = 0 \<and> ch_closed st' = ch_closed st"
  by (auto simp: wait_Wait_def Let_def loop_iters_closed loop_iter_closed split: if_splits)

lemma Deferrer_stopped:
  assumes "Deferrer err st = Inr st'"
  shows "stopped st'"
proof -
  from assms obtain st3 st5 where
    w: "wait_Wait (st3\<lparr> ch_closed := True \<rparr>) = Inr st5" and
    r: "st' = st5 \<or> (\<exists>e. st' = (emit (Exit 1) st5)\<lparr> exit_code := Some 1 \<rparr>)"
    by (auto simp: Deferrer_def Let_def split: sum.splits option.splits)
  from wait_Wait_stopped [OF w] have "wait st5 = 0" "ch_closed st5" by simp_all
  with r show ?thesis by (auto simp: stopped_def emit_def)
qed

lemma stopped_OnSignal:
  "stopped st \<Longrightarrow> stopped (snd (OnSignal s cb st)) \<and> quiet st (snd (OnSignal s cb st))"
  by (cases "cbsList st s") (simp_all add: OnSignal_None OnSignal_Some stopped_def quiet_def)

lemma stopped_OnKill:
  assumes "stopped st"
  shows "stopped (snd (OnKill cb st)) \<and> quiet st (snd (OnKill cb st))"
proof -
  let ?a = "snd (OnSignal SIGKILL cb st)"
  let ?b = "snd (OnSignal SIGQUIT cb ?a)"
  let ?c = "snd (OnSignal SIGINT cb ?b)"
  have k: "snd (OnKill cb st) = ?c" by (simp add: OnKill_def split_beta Let_def)
  note a = stopped_OnSignal [OF assms, of SIGKILL cb]
  note b = stopped_OnSignal [OF a [THEN conjunct1], of SIGQUIT cb]
  note c = stopped_OnSignal [OF b [THEN conjunct1], of SIGINT cb]
  from a b c show ?thesis
    unfolding k by (blast intro: quiet_trans)
qed

lemma stopped_remove_elem:
  "stopped st \<Longrightarrow> stopped (remove_elem p st) \<and> quiet st (remove_elem p st)"
  by (simp add: remove_elem_def emit_def Let_def stopped_def quiet_def)

lemma stopped_call_remover:
  "stopped st \<Longrightarrow> stopped (call_remover r st) \<and> quiet st (call_remover r st)"
proof (induction r arbitrary: st)
  case Nil
  then show ?case by simp
next
  case (Cons p r)
  note a = stopped_remove_elem [OF Cons.prems, of p]
  from Cons.IH [OF a [THEN conjunct1]] a show ?case
    by (auto intro: quiet_trans)
qed

lemma stopped_step:
  assumes "stopped st" and "step a st = Inr st'"
  shows "stopped st' \<and> quiet st st'"
proof (cases a)
  case (DoOnSignal s cb)
  with assms stopped_OnSignal [of st s cb] show ?thesis by auto
next
  case (DoOnKill cb)
  with assms stopped_OnKill [of st cb] show ?thesis by auto
next
  case (DoOnReload cb)
  with assms stopped_OnSignal [of st SIGUSR1 cb] show ?thesis by (auto simp: OnReload_def)
next
  case (DoRemove r)
  with assms stopped_call_remover [of st r] show ?thesis by auto
next
  case (DoDeliver s)
  with assms show ?thesis by (auto simp: deliver_def stopped_def split: if_splits)
next
  case DoLoop
  with assms show ?thesis by (auto simp: loop_iter_def stopped_def)
next
  case (DoDeferrer err)
  with assms show ?thesis
    by (auto simp: Deferrer_def Let_def ch_send_def stopped_def emit_def split: option.splits)
qed

lemma stopped_run:
  "stopped st \<Longrightarrow> run as st = Inr st' \<Longrightarrow> stopped st' \<and> quiet st st'"
proof (induction as arbitrary: st)
  case Nil
  then show ?case by simp
next
  case (Cons a as)
  from Cons.prems(2) obtain st1 where s: "step a st = Inr st1" and r: "run as st1 = Inr st'"
    by (auto simp: exec_def split: if_splits sum.splits)
  note a = stopped_step [OF Cons.prems(1) s]
  from Cons.IH [OF a [THEN conjunct1] r] a show ?case
    by (auto intro: quiet_trans)
qed

lemma registry_frame [simp]:
  "registry (st\<lparr> ch := a \<rparr>) = registry st"
  "registry (st\<lparr> ch_closed := b \<rparr>) = registry st"
  "registry (st\<lparr> notify := c \<rparr>) = registry st"
  "registry (st\<lparr> wait := d \<rparr>) = registry st"
  "registry (st\<lparr> exit_code := e \<rparr>) = registry st"
  by (simp_all add: registry_def fun_eq_iff)

lemma existing_cong: "registry st' = registry st \<Longrightarrow> existing st' = existing st"
  by (simp add: existing_def fun_eq_iff)

lemma drained_cong: "registry st' = registry st \<Longrightarrow> drained st' = drained st"
  by (simp add: drained_def)

lemma Deferrer_result:
  assumes "\<not> ch_closed st" and "wait st = Suc 0" and "length (ch st) \<le> ch_cap"
  shows "\<exists>st'. Deferrer err st = Inr st' \<and>
           calls (since st st') = calls (since st (fold processSignal (ch st @ [SIGINT]) st)) \<and>
           registry st' = registry (fold processSignal (ch st @ [SIGINT]) st)"
proof -
  let ?F = "fold processSignal (ch st @ [SIGINT]) st"
  show ?thesis
  proof (cases err)
    case None
    define st' where
      "st' = ?F\<lparr> ch := [], ch_closed := True, notify := (\<lambda>_. False), wait := 0 \<rparr>"
    have "Deferrer err st = Inr st'"
      using Deferrer_running [of st err] assms by (simp add: None Let_def st'_def)
    moreover have "since st st' = since st ?F" "registry st' = registry ?F"
      by (simp_all add: st'_def)
    ultimately show ?thesis by simp
  next
    case (Some m)
    let ?pre = "[Printf (panic_message m), PrintStack]"
    let ?G = "fold processSignal (ch st @ [SIGINT]) (st\<lparr> trace := trace st @ ?pre \<rparr>)"
    define st' where
      "st' = (emit (Exit 1) (?G\<lparr> ch := [], ch_closed := True, notify := (\<lambda>_. False), wait := 0 \<rparr>))
                \<lparr> exit_code := Some 1 \<rparr>"
    have D: "Deferrer err st = Inr st'"
      using Deferrer_running [of st err] assms by (simp add: Some emit_def Let_def st'_def)
    have G: "?G = ?F\<lparr> trace := (trace st @ ?pre) @ since st ?F \<rparr>"
      by (rule fold_processSignal_trace_upd)
    have "since st st' = ?pre @ since st ?F @ [Exit 1]"
      unfolding st'_def G by (simp add: since_def emit_def)
    then have c: "calls (since st st') = calls (since st ?F)" by simp
    have r: "registry st' = registry ?F"
      unfolding st'_def G by simp
    from D c r show ?thesis by simp
  qed
qed

lemma existing_owner:
  assumes "wf st" and "(e, v) \<in> set (existing st s)" and "(e, v') \<in> set (existing st t)"
  shows "s = t"
proof -
  from assms(2) obtain l where l: "cbsList st s = Some l" "(e, v) \<in> set (heap st l)"
    by (cases "cbsList st s") (auto simp: existing_def registry_def)
  from assms(3) obtain l' where l': "cbsList st t = Some l'" "(e, v') \<in> set (heap st l')"
    by (cases "cbsList st t") (auto simp: existing_def registry_def)
  from assms(1) l(2) l'(2) have "l = l'" unfolding wf_def by blast
  with assms(1) l(1) l'(1) show ?thesis unfolding wf_def by blast
qed

lemma filter_cbs_one:
  "distinct (map fst xs) \<Longrightarrow> (e, Callback cb) \<in> set xs \<Longrightarrow>
   filter (\<lambda>p. fst p = e) (cbs xs) = [(e, cb)]"
proof (induction xs rule: cbs.induct)
  case 1
  then show ?case by simp
next
  case (2 a c xs)
  have sub: "set (map fst (cbs xs)) \<subseteq> set (map fst xs)" by (rule cbs_subset)
  show ?case
  proof (cases "a = e")
    case True
    with 2 sub have "filter (\<lambda>p. fst p = e) (cbs xs) = []"
      by (auto simp: filter_empty_conv)
    moreover from True 2 have "c = cb" by (auto simp: image_iff)
    ultimately show ?thesis using True by simp
  next
    case False
    with 2 show ?thesis by auto
  qed
next
  case (3 a xs)
  then show ?case by (auto simp: image_iff)
qed

lemma filter_cbs_none:
  "\<forall>x\<in>set xs. fst x \<notin> E \<Longrightarrow> filter (\<lambda>p. fst p \<in> E) (cbs xs) = []"
proof -
  assume a: "\<forall>x\<in>set xs. fst x \<notin> E"
  have "fst p \<notin> E" if "p \<in> set (cbs xs)" for p
  proof -
    from that cbs_subset [of xs] have "fst p \<in> fst ` set xs" by auto
    with a show ?thesis by auto
  qed
  then show ?thesis by (simp add: filter_empty_conv)
qed

(*LEMMAS*)

section \<open>The claims\<close>

subsection \<open>C10: dispatch outside the termination class\<close>

text \<open>
  C10. Dispatching a signal that is not a termination signal leaves the map, every list
  and the allocator as they were, however often it is repeated, and every dispatch invokes
  the callbacks of that signal again, last registered first. Dispatching a signal that has
  no list changes nothing in the registry and invokes nothing.
\<close>

theorem dispatch_outside_termination_class:
  "(\<not> is_term s \<longrightarrow>
      cbsList ((processSignal s ^^ n) st) = cbsList st \<and>
      heap ((processSignal s ^^ n) st) = heap st \<and>
      next_list ((processSignal s ^^ n) st) = next_list st \<and>
      calls (since st ((processSignal s ^^ n) st)) =
        concat (replicate n (rev (cbs (existing st s))))) \<and>
   (cbsList st s = None \<longrightarrow>
      cbsList (processSignal s st) = cbsList st \<and>
      heap (processSignal s st) = heap st \<and>
      next_list (processSignal s st) = next_list st \<and>
      calls (since st (processSignal s st)) = [])"
proof (intro conjI impI)
  assume nt: "\<not> is_term s"
  have one: "calls (since st (processSignal s st)) = rev (cbs (existing st s))"
    by (cases "cbsList st s")
      (simp_all add: nt processSignal_absent processSignal_other existing_def registry_def cbs_rev)
  have "calls (concat (replicate n evs)) = concat (replicate n (calls evs))" for evs
    by (induction n) simp_all
  then show "calls (since st ((processSignal s ^^ n) st)) =
        concat (replicate n (rev (cbs (existing st s))))"
    by (simp add: processSignal_other_iter [OF nt] one)
qed (simp_all add: processSignal_other_iter processSignal_absent)

theorem dispatch_outside_termination_class_witness:
  "\<not> is_term SIGUSR1 \<and>
   calls (since (snd (OnReload 7 (snd (OnReload 5 init))))
            ((processSignal SIGUSR1 ^^ 2) (snd (OnReload 7 (snd (OnReload 5 init)))))) =
     [(1, 7), (0, 5), (1, 7), (0, 5)] \<and>
   cbsList (snd (OnReload 7 (snd (OnReload 5 init)))) SIGINT = None \<and>
   calls (since (snd (OnReload 7 (snd (OnReload 5 init))))
            (processSignal SIGINT (snd (OnReload 7 (snd (OnReload 5 init)))))) = []"
proof -
  let ?st = "snd (OnReload 7 (snd (OnReload 5 init)))"
  have nt: "\<not> is_term SIGUSR1" by simp
  have no: "cbsList ?st SIGINT = None" by (simp add: model_defs)
  have ex: "cbs (existing ?st SIGUSR1) = [(0, 5), (1, 7)]" by (simp add: model_defs)
  from dispatch_outside_termination_class [of SIGUSR1 2 ?st] nt ex
  have a: "calls (since ?st ((processSignal SIGUSR1 ^^ 2) ?st)) = [(1, 7), (0, 5), (1, 7), (0, 5)]"
    by (simp add: numeral_2_eq_2)
  from dispatch_outside_termination_class [of SIGINT 0 ?st] no
  have b: "calls (since ?st (processSignal SIGINT ?st)) = []" by simp
  from nt a no b show ?thesis by simp
qed

subsection \<open>C6: the lock during dispatch\<close>

text \<open>
  C6 says that callbacks are invoked without the lock that registrations need. With one
  callback registered for SIGUSR1, the dispatch of SIGUSR1 calls it between locking and
  unlocking \<^verbatim>\<open>mux\<close>.
\<close>

theorem callbacks_unlocked_counterexample:
  "\<not> calls_unlocked False
       (since (snd (OnReload 5 init)) (processSignal SIGUSR1 (snd (OnReload 5 init))))"
  by (simp add: model_defs visit_all_eq)

text \<open>
  C6, amended. processSignal locks \<^verbatim>\<open>mux\<close> first and unlocks it last, once each, and every
  callback is invoked in between, while the lock is held; OnSignal takes the same lock for
  every signal.
\<close>

theorem callbacks_run_under_mux:
  "calls_locked False (since st (processSignal s st)) \<and>
   mux_events (since st (processSignal s st)) = [Lock, Unlock] \<and>
   hd (since st (processSignal s st)) = Lock \<and>
   last (since st (processSignal s st)) = Unlock \<and>
   since st (snd (OnSignal t cb st)) = [Lock, Unlock]"
proof -
  obtain xs where ev: "since st (processSignal s st) = Lock # map body_event xs @ [Unlock]"
    by (simp add: since_def trace_processSignal)
  have reg: "since st (snd (OnSignal t cb st)) = [Lock, Unlock]"
    by (cases "cbsList st t") (simp_all add: OnSignal_None OnSignal_Some)
  have "mux_events (Lock # map body_event xs @ [Unlock]) = [Lock, Unlock]"
    using mux_events_body [of xs] by (simp add: mux_events_def)
  with ev reg calls_locked_body [of xs] show ?thesis by simp
qed

subsection \<open>C7: OnKill\<close>

text \<open>
  C7. OnKill registers the callback on SIGKILL, SIGQUIT and SIGINT, as the last element
  of each list, and touches no other list; calling the remover it returns takes these
  three elements out again, so that the three lists hold what they held before.
\<close>

theorem OnKill_registers_and_remover_removes:
  assumes "wf st"
  shows "length (fst (OnKill cb st)) = 3 \<and>
         registry (snd (OnKill cb st)) =
           (registry st)
             (SIGKILL \<mapsto> existing st SIGKILL @ [(next_elem st, Callback cb)],
              SIGQUIT \<mapsto> existing st SIGQUIT @ [(next_elem st + 1, Callback cb)],
              SIGINT \<mapsto> existing st SIGINT @ [(next_elem st + 2, Callback cb)]) \<and>
         registry (call_remover (fst (OnKill cb st)) (snd (OnKill cb st))) =
           (registry st)
             (SIGKILL \<mapsto> existing st SIGKILL, SIGQUIT \<mapsto> existing st SIGQUIT,
              SIGINT \<mapsto> existing st SIGINT)"
proof -
  let ?e = "next_elem st"
  obtain r1 st1 where o1: "OnSignal SIGKILL cb st = (r1, st1)" by (cases "OnSignal SIGKILL cb st")
  obtain r2 st2 where o2: "OnSignal SIGQUIT cb st1 = (r2, st2)" by (cases "OnSignal SIGQUIT cb st1")
  obtain r3 st3 where o3: "OnSignal SIGINT cb st2 = (r3, st3)" by (cases "OnSignal SIGINT cb st2")
  have ok: "OnKill cb st = (r1 @ r2 @ r3, st3)"
    by (simp add: OnKill_def o1 o2 o3)
  have w1: "wf st1" using wf_OnSignal [OF assms, of SIGKILL cb] by (simp add: o1)
  have w2: "wf st2" using wf_OnSignal [OF w1, of SIGQUIT cb] by (simp add: o2)
  have w3: "wf st3" using wf_OnSignal [OF w2, of SIGINT cb] by (simp add: o3)
  have n1: "next_elem st1 = Suc ?e" using next_elem_OnSignal [of SIGKILL cb st] by (simp add: o1)
  have n2: "next_elem st2 = Suc (Suc ?e)"
    using next_elem_OnSignal [of SIGQUIT cb st1] by (simp add: o2 n1)
  have g1: "registry st1 = (registry st)(SIGKILL \<mapsto> existing st SIGKILL @ [(?e, Callback cb)])"
    using registry_OnSignal [OF assms, of SIGKILL cb] by (simp add: o1)
  have g2: "registry st2 = (registry st1)(SIGQUIT \<mapsto> existing st1 SIGQUIT @ [(Suc ?e, Callback cb)])"
    using registry_OnSignal [OF w1, of SIGQUIT cb] by (simp add: o2 n1)
  have g3: "registry st3 = (registry st2)(SIGINT \<mapsto> existing st2 SIGINT @ [(Suc (Suc ?e), Callback cb)])"
    using registry_OnSignal [OF w2, of SIGINT cb] by (simp add: o3 n2)
  obtain l1 where h1: "r1 = [(l1, ?e)]" and c1: "cbsList st1 SIGKILL = Some l1"
    using handle_OnSignal [of SIGKILL cb st] by (auto simp: o1)
  obtain l2 where h2: "r2 = [(l2, Suc ?e)]" and c2: "cbsList st2 SIGQUIT = Some l2"
    using handle_OnSignal [of SIGQUIT cb st1] by (auto simp: o2 n1)
  obtain l3 where h3: "r3 = [(l3, Suc (Suc ?e))]" and c3: "cbsList st3 SIGINT = Some l3"
    using handle_OnSignal [of SIGINT cb st2] by (auto simp: o3 n2)
  have c2': "cbsList st3 SIGQUIT = Some l2"
    using cbsList_OnSignal_keeps [OF c2, of SIGINT cb] by (simp add: o3)
  have c1': "cbsList st3 SIGKILL = Some l1"
    using cbsList_OnSignal_keeps [OF cbsList_OnSignal_keeps [OF c1, of SIGQUIT cb], of SIGINT cb]
    by (simp add: o2 o3)
  have e1: "existing st1 SIGQUIT = existing st SIGQUIT"
    by (simp add: existing_upd [OF g1])
  have e2: "existing st2 SIGINT = existing st SIGINT"
    by (simp add: existing_upd [OF g2] existing_upd [OF g1])
  have reg: "registry st3 =
           (registry st)
             (SIGKILL \<mapsto> existing st SIGKILL @ [(?e, Callback cb)],
              SIGQUIT \<mapsto> existing st SIGQUIT @ [(Suc ?e, Callback cb)],
              SIGINT \<mapsto> existing st SIGINT @ [(Suc (Suc ?e), Callback cb)])"
    by (simp add: g3 g2 g1 e1 e2)
  let ?a = "remove_elem (l1, ?e) st3"
  let ?b = "remove_elem (l2, Suc ?e) ?a"
  let ?c = "remove_elem (l3, Suc (Suc ?e)) ?b"
  have wa: "wf ?a" by (rule wf_remove_elem [OF w3])
  have wb: "wf ?b" by (rule wf_remove_elem [OF wa])
  have f: "filter (\<lambda>x. fst x \<noteq> e') (existing st s) = existing st s" if "?e \<le> e'" for e' s
    by (rule filter_existing_fresh [OF assms that])
  have x1: "existing st3 SIGKILL = existing st SIGKILL @ [(?e, Callback cb)]"
    by (simp add: existing_def [of st3] reg)
  have ra: "registry ?a = (registry st3)(SIGKILL \<mapsto> existing st SIGKILL)"
    by (simp add: registry_remove_elem [OF w3 c1'] x1 f)
  have x2: "existing ?a SIGQUIT = existing st SIGQUIT @ [(Suc ?e, Callback cb)]"
    by (simp add: existing_def [of ?a] ra reg)
  have c2a: "cbsList ?a SIGQUIT = Some l2" by (simp add: c2')
  have rb: "registry ?b = (registry ?a)(SIGQUIT \<mapsto> existing st SIGQUIT)"
    by (simp add: registry_remove_elem [OF wa c2a] x2 f)
  have x3: "existing ?b SIGINT = existing st SIGINT @ [(Suc (Suc ?e), Callback cb)]"
    by (simp add: existing_def [of ?b] rb ra reg)
  have c3b: "cbsList ?b SIGINT = Some l3" by (simp add: c3)
  have rc: "registry ?c = (registry ?b)(SIGINT \<mapsto> existing st SIGINT)"
    by (simp add: registry_remove_elem [OF wb c3b] x3 f)
  have rem: "registry ?c =
           (registry st)
             (SIGKILL \<mapsto> existing st SIGKILL, SIGQUIT \<mapsto> existing st SIGQUIT,
              SIGINT \<mapsto> existing st SIGINT)"
    unfolding rc rb ra reg by (rule ext) simp
  have "fst (OnKill cb st) = [(l1, ?e), (l2, Suc ?e), (l3, Suc (Suc ?e))]"
    by (simp add: ok h1 h2 h3)
  moreover have "snd (OnKill cb st) = st3" by (simp add: ok)
  ultimately show ?thesis
    using reg rem by simp
qed

theorem OnKill_registers_and_remover_removes_witness:
  "wf (snd (OnSignal SIGINT 5 init)) \<and>
   registry (snd (OnKill 7 (snd (OnSignal SIGINT 5 init)))) SIGKILL = Some [(1, Callback 7)] \<and>
   registry (snd (OnKill 7 (snd (OnSignal SIGINT 5 init)))) SIGQUIT = Some [(2, Callback 7)] \<and>
   registry (snd (OnKill 7 (snd (OnSignal SIGINT 5 init)))) SIGINT =
     Some [(0, Callback 5), (3, Callback 7)] \<and>
   registry (call_remover (fst (OnKill 7 (snd (OnSignal SIGINT 5 init))))
              (snd (OnKill 7 (snd (OnSignal SIGINT 5 init))))) SIGINT = Some [(0, Callback 5)] \<and>
   registry (call_remover (fst (OnKill 7 (snd (OnSignal SIGINT 5 init))))
              (snd (OnKill 7 (snd (OnSignal SIGINT 5 init))))) SIGKILL = Some []"
proof -
  let ?st = "snd (OnSignal SIGINT 5 init)"
  have w: "wf ?st" by (rule wf_OnSignal [OF wf_init])
  have e: "existing ?st SIGINT = [(0, Callback 5)]" "existing ?st SIGKILL = []"
    "existing ?st SIGQUIT = []" "next_elem ?st = 1"
    by (simp_all add: model_defs)
  from OnKill_registers_and_remover_removes [OF w, of 7] w show ?thesis
    by (simp add: e del: next_elem_OnSignal)
qed

subsection \<open>C2: order of invocation\<close>

text \<open>
  C2. Register callbacks \<open>cs\<close> on one signal, in this order, and call any of the removers
  returned. Dispatching the signal then invokes exactly the callbacks that the signal had
  before and those of \<open>cs\<close> whose remover was not called, in the reverse of the order of
  registration.
\<close>

theorem dispatch_is_LIFO:
  assumes "wf st" and "register_all s cs st = (rs, st1)" and "set rs' \<subseteq> set rs"
  shows "map snd (calls (since (fold call_remover rs' st1)
                          (processSignal s (fold call_remover rs' st1)))) =
         rev (map snd (cbs (existing st s)) @
              map snd (filter (\<lambda>p. fst p \<notin> set rs') (zip rs cs)))"
proof (cases "cbsList st1 s")
  case None
  have "cs = []"
  proof (cases cs)
    case (Cons c cs')
    obtain l where "cbsList (snd (OnSignal s c st)) s = Some l"
      using handle_OnSignal [of s c st] by auto
    from register_all_keeps [OF this, of s cs'] assms(2) None show ?thesis
      by (simp add: Cons split_beta Let_def)
  qed simp
  with assms have "rs' = []" "st1 = st" by auto
  then show ?thesis
    using calls_processSignal [OF assms(1), of s] \<open>cs = []\<close> by (simp add: rev_map)
next
  case (Some l)
  let ?n = "next_elem st"
  let ?es = "[?n ..< ?n + length cs]"
  let ?st2 = "fold call_remover rs' st1"
  from register_all_effect [OF assms(1,2)] Some
  have w1: "wf st1" and ex: "existing st1 s = existing st s @ zip ?es (map Callback cs)"
    and rs: "rs = map (\<lambda>e. [(l, e)]) ?es"
    by auto
  have form: "\<forall>r\<in>set rs'. \<exists>e. r = [(l, e)]"
    using assms(3) rs by auto
  from remove_several [OF w1 Some form]
  have w2: "wf ?st2"
    and ex2: "existing ?st2 s = filter (\<lambda>x. [(l, fst x)] \<notin> set rs') (existing st1 s)"
    by auto
  have old: "filter (\<lambda>x. [(l, fst x)] \<notin> set rs') (existing st s) = existing st s"
  proof -
    have "[(l, fst x)] \<notin> set rs'" if "x \<in> set (existing st s)" for x
    proof
      assume "[(l, fst x)] \<in> set rs'"
      with assms(3) rs have "?n \<le> fst x" by auto
      from filter_existing_fresh [OF assms(1) this, of s] that show False
        by (auto simp: filter_id_conv)
    qed
    then show ?thesis by (simp add: filter_id_conv)
  qed
  have "calls (since ?st2 (processSignal s ?st2)) = rev (cbs (existing ?st2 s))"
    by (rule calls_processSignal [OF w2])
  then have c: "calls (since ?st2 (processSignal s ?st2)) =
      rev (cbs (existing st s) @
           cbs (filter (\<lambda>x. [(l, fst x)] \<notin> set rs') (zip ?es (map Callback cs))))"
    by (simp add: ex2 ex old)
  have k: "map snd (cbs (filter (\<lambda>x. [(l, fst x)] \<notin> set rs') (zip ?es (map Callback cs)))) =
           map snd (filter (\<lambda>p. fst p \<notin> set rs') (zip rs cs))"
    unfolding rs by (rule kept_callbacks) simp
  show ?thesis
    unfolding c rev_map [symmetric] map_append k ..
qed

theorem dispatch_is_LIFO_witness:
  "wf (snd (OnSignal SIGUSR1 9 init)) \<and>
   set [fst (register_all SIGUSR1 [1, 2, 3] (snd (OnSignal SIGUSR1 9 init))) ! 1]
     \<subseteq> set (fst (register_all SIGUSR1 [1, 2, 3] (snd (OnSignal SIGUSR1 9 init)))) \<and>
   map snd (calls (since
      (fold call_remover
         [fst (register_all SIGUSR1 [1, 2, 3] (snd (OnSignal SIGUSR1 9 init))) ! 1]
         (snd (register_all SIGUSR1 [1, 2, 3] (snd (OnSignal SIGUSR1 9 init)))))
      (processSignal SIGUSR1
         (fold call_remover
            [fst (register_all SIGUSR1 [1, 2, 3] (snd (OnSignal SIGUSR1 9 init))) ! 1]
            (snd (register_all SIGUSR1 [1, 2, 3] (snd (OnSignal SIGUSR1 9 init)))))))) =
     [3, 1, 9]"
proof -
  let ?st = "snd (OnSignal SIGUSR1 9 init)"
  let ?R = "register_all SIGUSR1 [1, 2, 3] ?st"
  have w: "wf ?st" by (rule wf_OnSignal [OF wf_init])
  have r: "fst ?R = [[(0, 1)], [(0, 2)], [(0, 3)]]"
    by (simp add: model_defs split_beta)
  have e: "cbs (existing ?st SIGUSR1) = [(0, 9)]"
    by (simp add: model_defs)
  have sub: "set [fst ?R ! 1] \<subseteq> set (fst ?R)" unfolding r by simp
  have R: "?R = (fst ?R, snd ?R)" by (rule prod.collapse [symmetric])
  show ?thesis
    using dispatch_is_LIFO [OF w R sub] w sub unfolding r e by simp
qed

subsection \<open>C1: termination callbacks run once\<close>

text \<open>
  C1. When processSignal handles a termination signal that has a list, the callbacks are
  invoked from a state in which SIGKILL, SIGINT and SIGQUIT already have new, empty lists
  and in which nothing has been invoked yet; the callbacks invoked are those of the list
  read before. So over any sequence of dispatches of termination signals the callbacks run
  for one signal only, the first that has a list; all later dispatches invoke nothing, and
  no element is invoked twice.
\<close>

theorem termination_callbacks_run_once:
  assumes "wf st" and "\<forall>s\<in>set ss. is_term s"
  shows "(is_term s \<and> cbsList st s \<noteq> None \<longrightarrow>
            processSignal s st =
              emit Unlock (visit_all (rev (existing st s)) (renewed (emit Lock st))) \<and>
            drained (renewed (emit Lock st)) \<and>
            calls (since st (renewed (emit Lock st))) = [] \<and>
            drained (processSignal s st)) \<and>
         calls (since st (fold processSignal ss st)) =
           (case find (\<lambda>s. cbsList st s \<noteq> None) ss of
              None \<Rightarrow> []
            | Some s \<Rightarrow> rev (cbs (existing st s))) \<and>
         distinct (map fst (calls (since st (fold processSignal ss st))))"
proof (intro conjI impI)
  assume s: "is_term s \<and> cbsList st s \<noteq> None"
  then obtain l where l: "cbsList st s = Some l" by auto
  with assms(1) have fresh: "l < next_list st" unfolding wf_def by blast
  show "processSignal s st =
          emit Unlock (visit_all (rev (existing st s)) (renewed (emit Lock st)))"
    using s l fresh
    by (simp add: processSignal_def Let_def renew_kill_lists_term emit_def existing_def
          registry_def renewed_def)
  show "drained (renewed (emit Lock st))"
    using registry_renewed [of "emit Lock st"] assms(1) by (simp add: drained_def)
  show "calls (since st (renewed (emit Lock st))) = []"
    by (simp add: renewed_def emit_def since_def)
  show "drained (processSignal s st)"
    using drained_processSignal [OF assms(1)] s by simp
next
  show c: "calls (since st (fold processSignal ss st)) =
           (case find (\<lambda>s. cbsList st s \<noteq> None) ss of
              None \<Rightarrow> []
            | Some s \<Rightarrow> rev (cbs (existing st s)))"
    by (rule calls_termination_dispatches [OF assms])
  show "distinct (map fst (calls (since st (fold processSignal ss st))))"
    unfolding c
    by (cases "find (\<lambda>s. cbsList st s \<noteq> None) ss")
      (simp_all add: rev_map [symmetric] distinct_cbs [OF distinct_existing [OF assms(1)]])
qed

theorem termination_callbacks_run_once_witness:
  "wf (snd (OnKill 7 (snd (OnSignal SIGQUIT 5 init)))) \<and>
   is_term SIGINT \<and> is_term SIGQUIT \<and> is_term SIGKILL \<and>
   cbsList (snd (OnKill 7 (snd (OnSignal SIGQUIT 5 init)))) SIGINT \<noteq> None \<and>
   drained (processSignal SIGINT (snd (OnKill 7 (snd (OnSignal SIGQUIT 5 init))))) \<and>
   calls (since (snd (OnKill 7 (snd (OnSignal SIGQUIT 5 init))))
            (fold processSignal [SIGINT, SIGQUIT, SIGKILL]
               (snd (OnKill 7 (snd (OnSignal SIGQUIT 5 init)))))) = [(3, 7)]"
proof -
  let ?st = "snd (OnKill 7 (snd (OnSignal SIGQUIT 5 init)))"
  have w: "wf ?st" by (rule wf_OnKill [OF wf_OnSignal [OF wf_init]])
  have all: "\<forall>s\<in>set [SIGINT, SIGQUIT, SIGKILL]. is_term s" by simp
  have c: "cbsList ?st SIGINT \<noteq> None" by (simp add: model_defs split_beta)
  have e: "existing ?st SIGINT = [(3, Callback 7)]" by (simp add: model_defs split_beta)
  have f: "find (\<lambda>s. cbsList ?st s \<noteq> None) [SIGINT, SIGQUIT, SIGKILL] = Some SIGINT"
    using c by simp
  note t = termination_callbacks_run_once [OF w all, of SIGINT]
  have d: "drained (processSignal SIGINT ?st)"
    using t [THEN conjunct1] c is_term_simps(1) by blast
  have k: "calls (since ?st (fold processSignal [SIGINT, SIGQUIT, SIGKILL] ?st)) = [(3, 7)]"
    using t [THEN conjunct2, THEN conjunct1, unfolded f] by (simp add: e)
  from w c d k show ?thesis by simp
qed

subsection \<open>C5: the exit status\<close>



subsection \<open>C9: no dispatch after Deferrer\<close>

text \<open>
  C9. When Deferrer has returned, the goroutine has left its loop and the channel is
  closed. Whatever the program and the operating system do afterwards, and whatever
  signals the channel buffer may hold, the goroutine stays stopped and no callback is
  invoked any more.
\<close>

theorem no_dispatch_after_Deferrer:
  assumes "Deferrer err st = Inr st1" and "run as (st1\<lparr> ch := buf \<rparr>) = Inr st2"
  shows "wait st1 = 0 \<and> ch_closed st1 \<and> wait st2 = 0 \<and> ch_closed st2 \<and>
         calls (since st1 st2) = []"
proof -
  have s1: "stopped st1" by (rule Deferrer_stopped [OF assms(1)])
  then have "stopped (st1\<lparr> ch := buf \<rparr>)" by (simp add: stopped_def)
  from stopped_run [OF this assms(2)] have "stopped st2" "quiet st1 st2" by simp_all
  with s1 quiet_since [of st1 st2] show ?thesis by (simp add: stopped_def)
qed

theorem no_dispatch_after_Deferrer_witness:
  "(case Deferrer None (snd (OnKill 7 init)) of
      Inl x \<Rightarrow> False
    | Inr st1 \<Rightarrow>
        wait st1 = 0 \<and>
        calls (since (snd (OnKill 7 init)) st1) = [(2, 7)] \<and>
        (case run [DoOnKill 4, DoLoop] (st1\<lparr> ch := [SIGINT, SIGUSR1] \<rparr>) of
           Inl x \<Rightarrow> False
         | Inr st2 \<Rightarrow> wait st2 = 0 \<and> calls (since st1 st2) = []))"
proof -
  let ?st = "snd (OnKill 7 init)"
  have w: "wf ?st" by (rule wf_OnKill [OF wf_init])
  have h: "\<not> ch_closed ?st" "wait ?st = Suc 0" "length (ch ?st) \<le> ch_cap"
    by (simp_all add: init_def)
  have c: "ch ?st = []" by (simp add: init_def)
  define st1 where "st1 = (fold processSignal (ch ?st @ [SIGINT]) ?st)
                      \<lparr> ch := [], ch_closed := True, notify := (\<lambda>_. False), wait := 0 \<rparr>"
  have D: "Deferrer None ?st = Inr st1"
    using Deferrer_running [OF h, of None] by (simp add: st1_def Let_def)
  have e: "cbs (existing ?st SIGINT) = [(2, 7)]"
    by (simp add: model_defs split_beta)
  have c1: "calls (since ?st st1) = [(2, 7)]"
    using calls_processSignal [OF w, of SIGINT] by (simp add: st1_def init_def [THEN arg_cong, of ch] e)
  define st2 where "st2 = loop_iter (snd (OnKill 4 (st1\<lparr> ch := [SIGINT, SIGUSR1] \<rparr>)))"
  have x: "exit_code (st1\<lparr> ch := [SIGINT, SIGUSR1] \<rparr>) = None"
    by (simp add: st1_def init_def)
  have R: "run [DoOnKill 4, DoLoop] (st1\<lparr> ch := [SIGINT, SIGUSR1] \<rparr>) = Inr st2"
    using x by (simp add: exec_def st2_def)
  note t = no_dispatch_after_Deferrer [OF D R]
  show ?thesis
    unfolding D sum.case R using t c1 by simp
qed

(*CLAIMS*)

end
